theory Spec2Isabelle
  imports Main "HOL-Library.Word" "HOL-Library.Multiset"
begin

section \<open>Go values shared by the models\<close>

text \<open>
  A Go panic that nothing in the package recovers from ends the program, so every
  function that can panic returns \<open>go_panic + result\<close> and \<open>Inl\<close> is final.
\<close>

datatype go_panic =
    IndexOutOfRange
  | CloseOfClosedChannel
  | InterfaceConversion
  | PanicErr string

text \<open>
  The thirty-three gateway events of the dispatcher. Each one names, in the source, a box
  type (pointer to \<open>Ready\<close>), a callback type (\<open>ReadyCallback\<close>), a channel field
  (\<open>readyChan\<close>) and a key constant (\<open>KeyReady\<close>, \<open>EventReady\<close>).
\<close>

datatype evt =
    Ready | Resumed
  | ChannelCreate | ChannelUpdate | ChannelDelete | ChannelPinsUpdate
  | GuildCreate | GuildUpdate | GuildDelete
  | GuildBanAdd | GuildBanRemove
  | GuildEmojisUpdate | GuildIntegrationsUpdate
  | GuildMemberAdd | GuildMemberRemove | GuildMemberUpdate | GuildMembersChunk
  | GuildRoleCreate | GuildRoleUpdate | GuildRoleDelete
  | MessageCreate | MessageUpdate | MessageDelete | MessageDeleteBulk
  | MessageReactionAdd | MessageReactionRemove | MessageReactionRemoveAll
  | PresenceUpdate | TypingStart | UserUpdate
  | VoiceStateUpdate | VoiceServerUpdate | WebhooksUpdate

text \<open>
  An \<open>interface{}\<close> value: its dynamic type and its content. A type assertion
  \<open>x.(T)\<close> without the comma-ok form panics unless the dynamic type of \<open>x\<close> is \<open>T\<close>.
  A value of a callback type is a function; the nil function value is not modelled.
\<close>

datatype go_type = BoxPtr evt | CallbackT evt | OtherT string

datatype iface = Iface (dyn_type: go_type) (dyn_val: string)

text \<open>The goroutines a \<open>go\<close> statement starts: the callee and its evaluated arguments.\<close>

datatype goroutine =
    GoCallback iface nat iface
  | GoDrain
  | GoEventHandler

section \<open>struct\_channel.go: Channel.valid\<close>

text \<open>
  The fields of \<open>Channel\<close> that \<open>valid\<close> reads, and the identifying ones. Go's
  \<open>uint\<close> is taken at 64 bits; \<open>len\<close> of a Go string counts bytes, as
  \<open>length\<close> of a \<open>string\<close> does. \<open>Topic\<close> is a \<open>*string\<close>: \<open>None\<close> is nil.
\<close>

record Channel =
  ID :: "64 word"
  Type :: "64 word"
  Name :: string
  Topic :: "string option"
  RateLimitPerUser :: "64 word"

definition valid :: "Channel \<Rightarrow> bool" where
  "valid c =
     (if RateLimitPerUser c > 120 then False
      else if (case Topic c of None \<Rightarrow> False | Some t \<Rightarrow> length t > 1024) then False
      else if Name c \<noteq> [] \<and> (length (Name c) > 100 \<or> length (Name c) < 2) then False
      else True)"

section \<open>event\_dispatcher.go: Dispatch\<close>

text \<open>
  A channel is modelled by the sequence of values sent on it (whether a send has to wait
  for a receiver is not modelled); \<open>shutdown\<close> is only ever closed, so it is modelled
  by whether it is closed. \<open>typedChans\<close> stands for the
  thirty-three typed channel fields \<open>readyChan\<close> ... \<open>webhooksUpdateChan\<close>. A Go
  map is a partial function; reading a missing key of a map of slices gives the nil slice
  (\<open>slice_of\<close>). The mutex is not modelled: every function runs alone.
\<close>

record Dispatch =
  allChan :: "iface list"
  typedChans :: "evt \<Rightarrow> iface list"
  listeners :: "string \<rightharpoonup> iface list"
  listenOnceOnly :: "string \<rightharpoonup> nat list"
  shutdown :: bool

definition slice_of :: "('k \<rightharpoonup> 'v list) \<Rightarrow> 'k \<Rightarrow> 'v list" where
  "slice_of m k = (case m k of None \<Rightarrow> [] | Some xs \<Rightarrow> xs)"

definition NewDispatch :: Dispatch where
  "NewDispatch =
     \<lparr>allChan = [], typedChans = (\<lambda>_. []), listeners = Map.empty,
      listenOnceOnly = Map.empty, shutdown = False\<rparr>"

text \<open>\<open>start\<close> calls \<open>alwaysListenToChans\<close>, which starts the draining goroutine.\<close>

definition alwaysListenToChans :: "Dispatch \<Rightarrow> Dispatch \<times> goroutine list" where
  "alwaysListenToChans d = (d, [GoDrain])"

definition start :: "Dispatch \<Rightarrow> Dispatch \<times> goroutine list" where
  "start d = alwaysListenToChans d"

text \<open>\<open>stop\<close> is \<open>close(d.shutdown)\<close>: closing a closed channel panics.\<close>

definition stop :: "Dispatch \<Rightarrow> go_panic + Dispatch" where
  "stop d = (if shutdown d then Inl CloseOfClosedChannel else Inr (d\<lparr>shutdown := True\<rparr>))"

definition AddHandler :: "Dispatch \<Rightarrow> string \<Rightarrow> iface \<Rightarrow> Dispatch" where
  "AddHandler d evtName listener =
     d\<lparr>listeners := (listeners d)(evtName \<mapsto> slice_of (listeners d) evtName @ [listener])\<rparr>"

definition AddHandlerOnce :: "Dispatch \<Rightarrow> string \<Rightarrow> iface \<Rightarrow> Dispatch" where
  "AddHandlerOnce d evtName listener =
     (let index = length (slice_of (listeners d) evtName) in
      d\<lparr>listeners := (listeners d)(evtName \<mapsto> slice_of (listeners d) evtName @ [listener]),
        listenOnceOnly :=
          (listenOnceOnly d)(evtName \<mapsto> slice_of (listenOnceOnly d) evtName @ [index])\<rparr>)"

text \<open>
  \<open>triggerChan\<close>: the switch on \<open>evtName\<close> against the \<open>Key...\<close> constants is the
  parameter \<open>keyOf\<close> (the constants are declared in the event package). Every case asserts
  the box to the pointer type of its event and sends it on the channel of that event; the default case prints a TODO note.
  The result carries the lines printed.
\<close>

definition triggerChan ::
  "(string \<Rightarrow> evt option) \<Rightarrow> Dispatch \<Rightarrow> string \<Rightarrow> iface \<Rightarrow> go_panic + (Dispatch \<times> string list)"
where
  "triggerChan keyOf d evtName box =
     (case keyOf evtName of
        Some k \<Rightarrow>
          if dyn_type box = BoxPtr k
          then Inr (d\<lparr>typedChans := (typedChans d)(k := typedChans d k @ [box])\<rparr>, [])
          else Inl InterfaceConversion
      | None \<Rightarrow> Inr (d, [''TODO Implement channel for '' @ evtName]))"

text \<open>
  The loop of one case of \<open>triggerCallbacks\<close>:
  for each listener in \<open>d.listeners[K]\<close>, in order, a \<open>go\<close> statement calls the
  listener, asserted to \<open>KCallback\<close>, on the session and the box, asserted to the
  pointer type of \<open>K\<close>. The \<open>go\<close> statement evaluates the callee, then the
  arguments, in the calling goroutine, and then starts the call as a goroutine of its own.
\<close>

fun spawnCallbacks :: "evt \<Rightarrow> nat \<Rightarrow> iface \<Rightarrow> iface list \<Rightarrow> go_panic + goroutine list" where
  "spawnCallbacks k session box [] = Inr []"
| "spawnCallbacks k session box (listener # rest) =
     (if dyn_type listener \<noteq> CallbackT k then Inl InterfaceConversion
      else if dyn_type box \<noteq> BoxPtr k then Inl InterfaceConversion
      else (case spawnCallbacks k session box rest of
              Inl p \<Rightarrow> Inl p
            | Inr gs \<Rightarrow> Inr (GoCallback listener session box # gs)))"

text \<open>
  The removal loop of \<open>triggerCallbacks\<close>, over the indices stored by
  \<open>AddHandlerOnce\<close>: the slot \<open>index\<close> takes the last listener, the last slot is set
  to nil and cut off. An index at or beyond the current length panics.
\<close>

fun removeOnce :: "iface list \<Rightarrow> nat list \<Rightarrow> go_panic + iface list" where
  "removeOnce ls [] = Inr ls"
| "removeOnce ls (index # rest) =
     (if index < length ls then removeOnce (butlast (ls[index := last ls])) rest
      else Inl IndexOutOfRange)"

definition triggerCallbacks ::
  "(string \<Rightarrow> evt option) \<Rightarrow> Dispatch \<Rightarrow> string \<Rightarrow> nat \<Rightarrow> iface
     \<Rightarrow> go_panic + (Dispatch \<times> goroutine list \<times> string list)"
where
  "triggerCallbacks keyOf d evtName session box =
     (case (case keyOf evtName of
              Some k \<Rightarrow>
                (case spawnCallbacks k session box (slice_of (listeners d) evtName) of
                   Inl p \<Rightarrow> Inl p
                 | Inr gs \<Rightarrow> Inr (gs, []))
            | None \<Rightarrow> Inr ([], [''TODO Implement callback for '' @ evtName])) of
        Inl p \<Rightarrow> Inl p
      | Inr (gs, out) \<Rightarrow>
          (case removeOnce (slice_of (listeners d) evtName) (slice_of (listenOnceOnly d) evtName) of
             Inl p \<Rightarrow> Inl p
           | Inr ls \<Rightarrow>
               Inr (d\<lparr>listeners :=
                        (if slice_of (listenOnceOnly d) evtName = [] then listeners d
                         else (listeners d)(evtName \<mapsto> ls)),
                      listenOnceOnly := (listenOnceOnly d)(evtName := None)\<rparr>,
                    gs, out)))"

section \<open>The Client: Connect, Disconnect, Emit, eventHandler\<close>

text \<open>
  The websocket (\<open>c.ws\<close>) is a collaborator outside the sources: the model records the
  calls made on it, and takes the error each call returns (\<open>None\<close> is nil) as an
  argument. \<open>goroutines\<close> collects what \<open>go\<close> statements have started and
  \<open>logged\<close> what was logged or printed. \<open>SocketCommand\<close> is the type variable
  \<open>'c\<close>: the type and its constants are declared outside the sources and only
  compared for equality.
\<close>

datatype 'c ws_call = WsConnect | WsDisconnect | WsEmit 'c string

record 'c Client =
  evtDispatch :: Dispatch
  ws :: "'c ws_call list"
  goroutines :: "goroutine list"
  logged :: "string list"

definition logInfo :: "'c Client \<Rightarrow> string \<Rightarrow> 'c Client" where
  "logInfo c msg = c\<lparr>logged := logged c @ [''info: '' @ msg]\<rparr>"

definition logErr :: "'c Client \<Rightarrow> string \<Rightarrow> 'c Client" where
  "logErr c msg = c\<lparr>logged := logged c @ [''error: '' @ msg]\<rparr>"

text \<open>
  \<open>Connect\<close>: starts the dispatcher, then connects the websocket; on an error it
  logs and returns the error; otherwise it starts \<open>eventHandler\<close> as a goroutine.
\<close>

definition Connect :: "string option \<Rightarrow> 'c Client \<Rightarrow> string option \<times> 'c Client" where
  "Connect wsConnectErr c =
     (let c1 = logInfo c ''Connecting to discord Gateway'';
          (d, gs) = start (evtDispatch c1);
          c2 = c1\<lparr>evtDispatch := d, goroutines := goroutines c1 @ gs\<rparr>;
          c3 = c2\<lparr>ws := ws c2 @ [WsConnect]\<rparr>
      in case wsConnectErr of
           Some err \<Rightarrow> (Some err, logErr c3 err)
         | None \<Rightarrow>
             (let c4 = logInfo c3 ''Connected''
              in (None, c4\<lparr>goroutines := goroutines c4 @ [GoEventHandler]\<rparr>)))"

text \<open>
  \<open>Disconnect\<close>: prints an empty line, logs, stops the dispatcher (which may panic),
  then disconnects the websocket and returns its error. A panic comes with the client as
  it is when the panic happens, so that what was done before it can be read off.
\<close>

definition Disconnect ::
  "string option \<Rightarrow> 'c Client \<Rightarrow> (go_panic \<times> 'c Client) + (string option \<times> 'c Client)"
where
  "Disconnect wsDisconnectErr c =
     (let c1 = logInfo (c\<lparr>logged := logged c @ [[]]\<rparr>) ''Closing Discord gateway connection''
      in case stop (evtDispatch c1) of
           Inl p \<Rightarrow> Inl (p, c1)
         | Inr d \<Rightarrow>
             (let c2 = c1\<lparr>evtDispatch := d, ws := ws c1 @ [WsDisconnect]\<rparr>
              in case wsDisconnectErr of
                   Some err \<Rightarrow> Inr (Some err, logErr c2 err)
                 | None \<Rightarrow> Inr (None, logInfo c2 ''Disconnected'')))"

text \<open>
  \<open>Emit\<close>: the switch lets the three listed commands through and returns on any
  other; the three constants are parameters.
\<close>

definition Emit :: "'c \<Rightarrow> 'c \<Rightarrow> 'c \<Rightarrow> 'c Client \<Rightarrow> 'c \<Rightarrow> string \<Rightarrow> 'c Client" where
  "Emit CommandUpdateStatus CommandUpdateVoiceState CommandRequestGuildMembers c command data =
     (if command = CommandUpdateStatus \<or> command = CommandUpdateVoiceState
         \<or> command = CommandRequestGuildMembers
      then c\<lparr>ws := ws c @ [WsEmit command data]\<rparr>
      else c)"


text \<open>
  One turn of the loop of \<open>eventHandler\<close>, for what the receive on
  \<open>socketEvtChan\<close> gave: \<open>None\<close> when the channel is closed (an error is logged and
  \<open>break\<close> leaves the select only), otherwise the event's name and data. The switch
  on the \<open>Event...\<close> constants is the parameter \<open>eventOf\<close>. Every case calls the
  decode helper as a statement (its result, if any, is not looked at), builds the box of
  its event from what was decoded and calls \<open>triggerChan\<close> and
  \<open>triggerCallbacks\<close>; the default case prints a TODO note. The decode helper is the
  parameter \<open>unmarshal\<close>: it either returns the content it left in the box or panics.
  The session handed to the callbacks is the client itself, written \<open>0\<close>.
\<close>

definition eventHandlerStep ::
  "(string \<Rightarrow> evt option) \<Rightarrow> (string \<Rightarrow> evt option) \<Rightarrow> (string \<Rightarrow> go_panic + string)
     \<Rightarrow> 'c Client \<Rightarrow> (string \<times> string) option \<Rightarrow> go_panic + 'c Client"
where
  "eventHandlerStep eventOf keyOf unmarshal c received =
     (case received of
        None \<Rightarrow> Inr (c\<lparr>logged := logged c @ [''Event channel is dead!'']\<rparr>)
      | Some (evtName, data) \<Rightarrow>
          (case eventOf evtName of
             None \<Rightarrow>
               Inr (c\<lparr>logged := logged c @ [''TODO Implement event handler for '' @ evtName]\<rparr>)
           | Some k \<Rightarrow>
               (case unmarshal data of
                  Inl p \<Rightarrow> Inl p
                | Inr content \<Rightarrow>
                    (let box = Iface (BoxPtr k) content in
                     case triggerChan keyOf (evtDispatch c) evtName box of
                       Inl p \<Rightarrow> Inl p
                     | Inr (d1, out1) \<Rightarrow>
                         (case triggerCallbacks keyOf d1 evtName 0 box of
                            Inl p \<Rightarrow> Inl p
                          | Inr (d2, gs, out2) \<Rightarrow>
                              Inr (c\<lparr>evtDispatch := d2,
                                     goroutines := goroutines c @ gs,
                                     logged := logged c @ out1 @ out2\<rparr>))))))"

text \<open>The loop itself, over the receives of a finite run; a panic ends it.\<close>

fun eventHandler ::
  "(string \<Rightarrow> evt option) \<Rightarrow> (string \<Rightarrow> evt option) \<Rightarrow> (string \<Rightarrow> go_panic + string)
     \<Rightarrow> 'c Client \<Rightarrow> (string \<times> string) option list \<Rightarrow> go_panic + 'c Client"
where
  "eventHandler eventOf keyOf unmarshal c [] = Inr c"
| "eventHandler eventOf keyOf unmarshal c (received # rest) =
     (case eventHandlerStep eventOf keyOf unmarshal c received of
        Inl p \<Rightarrow> Inl p
      | Inr c' \<Rightarrow> eventHandler eventOf keyOf unmarshal c' rest)"

definition NewClient :: "'c Client" where
  "NewClient = \<lparr>evtDispatch = NewDispatch, ws = [], goroutines = [], logged = []\<rparr>"

section \<open>tlru: CacheList\<close>

text \<open>
  The map holds pointers to items, and \<open>Set\<close> writes through them, so the items live
  in a store \<open>heap\<close> from addresses to \<open>CacheItem\<close>s and the map holds addresses.
  Keys are \<open>Snowflake\<close>s (\<open>uint64\<close>). Time is read from the clock: the reading is
  the argument \<open>now\<close>. The content of an item is a string.
\<close>

record CacheItem =
  item :: string
  death :: int
  lastUsed :: int

record CacheList =
  items :: "64 word \<rightharpoonup> nat"
  limit :: "64 word"
  lifetime :: int
  misses :: "64 word"
  hits :: "64 word"

datatype cache_panic = NilDereference

definition NewCacheList :: "64 word \<Rightarrow> int \<Rightarrow> CacheList" where
  "NewCacheList n lt = \<lparr>items = Map.empty, limit = n, lifetime = lt, misses = 0, hits = 0\<rparr>"

definition update :: "(nat \<Rightarrow> CacheItem) \<Rightarrow> nat \<Rightarrow> int \<Rightarrow> (nat \<Rightarrow> CacheItem)" where
  "update heap i now = heap(i := (heap i)\<lparr>lastUsed := now\<rparr>)"

text \<open>\<open>size\<close> is \<open>uint(len(list.items))\<close>; the number of keys of a Go map fits a \<open>uint\<close>.\<close>

definition size_items :: "CacheList \<Rightarrow> nat" where
  "size_items list = card (dom (items list))"

text \<open>
  Go visits the keys of a map in an order that is not specified and may differ from one
  \<open>range\<close> to the next. Each \<open>range\<close> therefore takes the order it visits the keys
  in as an argument, a list of the keys of the map (\<open>is_order\<close>).
\<close>

definition is_order :: "64 word list \<Rightarrow> CacheList \<Rightarrow> bool" where
  "is_order ks list = (distinct ks \<and> set ks = dom (items list))"

text \<open>\<open>First\<close> returns the first pair the \<open>range\<close> visits, or nil and 0 on an empty map.\<close>

definition First :: "64 word list \<Rightarrow> CacheList \<Rightarrow> nat option \<times> 64 word" where
  "First ks list = (case ks of [] \<Rightarrow> (None, 0) | key # _ \<Rightarrow> (items list key, key))"

text \<open>
  The loop of \<open>removeLRU\<close>: \<open>lru\<close> and \<open>lruKey\<close> move to a visited pair whose key is
  not the exception and whose \<open>lastUsed\<close> is strictly smaller than that of \<open>lru\<close>.
  Reading \<open>lru.lastUsed\<close> through a nil \<open>lru\<close>, or \<open>item.lastUsed\<close> through a nil
  item, panics. Go only visits keys the map holds; for an order that names another key
  the model reads the nil item.
\<close>

fun lruLoop ::
  "(nat \<Rightarrow> CacheItem) \<Rightarrow> CacheList \<Rightarrow> 64 word \<Rightarrow> 64 word list \<Rightarrow> nat option \<times> 64 word
     \<Rightarrow> cache_panic + (nat option \<times> 64 word)"
where
  "lruLoop heap list exception [] (lru, lruKey) = Inr (lru, lruKey)"
| "lruLoop heap list exception (key # rest) (lru, lruKey) =
     (if key \<noteq> exception
      then (case (items list key, lru) of
              (Some i, Some l) \<Rightarrow>
                if lastUsed (heap i) < lastUsed (heap l)
                then lruLoop heap list exception rest (Some i, key)
                else lruLoop heap list exception rest (lru, lruKey)
            | _ \<Rightarrow> Inl NilDereference)
      else lruLoop heap list exception rest (lru, lruKey))"

definition removeLRU ::
  "64 word list \<Rightarrow> 64 word list \<Rightarrow> (nat \<Rightarrow> CacheItem) \<Rightarrow> CacheList \<Rightarrow> 64 word
     \<Rightarrow> cache_panic + CacheList"
where
  "removeLRU ks1 ks2 heap list exception =
     (case lruLoop heap list exception ks2 (First ks1 list) of
        Inl p \<Rightarrow> Inl p
      | Inr (lru, lruKey) \<Rightarrow> Inr (list\<lparr>items := (items list)(lruKey := None)\<rparr>))"

text \<open>
  \<open>Set\<close>: the new item is stamped; under an existing key the stored item is overwritten
  in place unless it is the very same item; under a new key the pointer is stored, and
  when the limit is not 0 and the size is now above it, \<open>removeLRU\<close> runs with the new
  key as the exception. \<open>ks1\<close> and \<open>ks2\<close> are the orders of the two \<open>range\<close>s
  of \<open>removeLRU\<close> (that of \<open>First\<close> and the loop's own).
\<close>

definition Set_item ::
  "64 word list \<Rightarrow> 64 word list \<Rightarrow> int \<Rightarrow> (nat \<Rightarrow> CacheItem) \<times> CacheList \<Rightarrow> 64 word \<Rightarrow> nat
     \<Rightarrow> cache_panic + ((nat \<Rightarrow> CacheItem) \<times> CacheList)"
where
  "Set_item ks1 ks2 now st ident newItem =
     (let heap = update (fst st) newItem now; list = snd st in
      case items list ident of
        Some i \<Rightarrow>
          if item (heap i) \<noteq> item (heap newItem) \<or> i \<noteq> newItem
          then Inr (heap(i := heap newItem), list)
          else Inr (heap, list)
      | None \<Rightarrow>
          (let list1 = list\<lparr>items := (items list)(ident \<mapsto> newItem)\<rparr> in
           if limit list1 = 0 \<or> size_items list1 \<le> unat (limit list1) then Inr (heap, list1)
           else (case removeLRU ks1 ks2 heap list1 ident of
                   Inl p \<Rightarrow> Inl p
                 | Inr list2 \<Rightarrow> Inr (heap, list2))))"

section \<open>websocket: RegisterEvent and RemoveEvent\<close>

text \<open>
  Modelled from the spec: \<open>RegisterEvent\<close> and \<open>RemoveEvent\<close> of the websocket client
  are not in the sources (only their test, websocket/client\_test.go, is). The spec words
  them as reference-counted interest tracking: an event name remains tracked while its
  registration count is greater than zero. \<open>trackedEvents\<close> maps a tracked name to its
  count; the test's \<open>len(m.trackedEvents)\<close> is the number of tracked names.
\<close>

record wsClient =
  trackedEvents :: "string \<rightharpoonup> nat"

text \<open>
  Modelled from the spec: \<open>RegisterEvent\<close> (not in the sources) counts one more
  registration of the name; a name without a count starts at one.
\<close>

definition RegisterEvent :: "wsClient \<Rightarrow> string \<Rightarrow> wsClient" where
  "RegisterEvent m event =
     m\<lparr>trackedEvents :=
         (trackedEvents m)(event \<mapsto> (case trackedEvents m event of None \<Rightarrow> 1 | Some n \<Rightarrow> Suc n))\<rparr>"

text \<open>
  Modelled from the spec: \<open>RemoveEvent\<close> (not in the sources) counts one registration
  less and untracks the name when none is left; a name that is not tracked stays so.
\<close>

definition RemoveEvent :: "wsClient \<Rightarrow> string \<Rightarrow> wsClient" where
  "RemoveEvent m event =
     (case trackedEvents m event of
        None \<Rightarrow> m
      | Some n \<Rightarrow>
          if n \<le> 1 then m\<lparr>trackedEvents := (trackedEvents m)(event := None)\<rparr>
          else m\<lparr>trackedEvents := (trackedEvents m)(event \<mapsto> n - 1)\<rparr>)"

definition tracked :: "wsClient \<Rightarrow> string \<Rightarrow> bool" where
  "tracked m event = (trackedEvents m event \<noteq> None)"

definition count_of :: "wsClient \<Rightarrow> string \<Rightarrow> nat" where
  "count_of m event = (case trackedEvents m event of None \<Rightarrow> 0 | Some n \<Rightarrow> n)"

datatype ws_op = Register string | Remove string

fun apply_ops :: "wsClient \<Rightarrow> ws_op list \<Rightarrow> wsClient" where
  "apply_ops m [] = m"
| "apply_ops m (Register e # ops) = apply_ops (RegisterEvent m e) ops"
| "apply_ops m (Remove e # ops) = apply_ops (RemoveEvent m e) ops"

text \<open>
  The registration count as the spec's words give it, from the calls alone: one up for
  each registration of the name, one down (not below zero) for each removal.
\<close>

fun registrations :: "nat \<Rightarrow> string \<Rightarrow> ws_op list \<Rightarrow> nat" where
  "registrations n e [] = n"
| "registrations n e (Register e' # ops) = registrations (if e' = e then Suc n else n) e ops"
| "registrations n e (Remove e' # ops) = registrations (if e' = e then n - 1 else n) e ops"

definition emptyClient :: wsClient where
  "emptyClient = \<lparr>trackedEvents = Map.empty\<rparr>"

section \<open>Runs and sample parameters\<close>

text \<open>
  A run of \<open>Set\<close> calls on one list: each call comes with the two visiting orders
  its \<open>removeLRU\<close> would use, the clock reading, the key and the item's address.
\<close>

fun Set_all ::
  "(nat \<Rightarrow> CacheItem) \<times> CacheList
     \<Rightarrow> (64 word list \<times> 64 word list \<times> int \<times> 64 word \<times> nat) list
     \<Rightarrow> cache_panic + ((nat \<Rightarrow> CacheItem) \<times> CacheList)"
where
  "Set_all st [] = Inr st"
| "Set_all st ((ks1, ks2, now, ident, newItem) # calls) =
     (case Set_item ks1 ks2 now st ident newItem of
        Inl p \<Rightarrow> Inl p
      | Inr st' \<Rightarrow> Set_all st' calls)"

text \<open>
  A run is well ordered when each call's two orders list the keys the map holds once the
  call's key is in it, and the call returns.
\<close>

fun ordered_calls ::
  "(nat \<Rightarrow> CacheItem) \<times> CacheList
     \<Rightarrow> (64 word list \<times> 64 word list \<times> int \<times> 64 word \<times> nat) list \<Rightarrow> bool"
where
  "ordered_calls st [] = True"
| "ordered_calls st ((ks1, ks2, now, ident, newItem) # calls) =
     (is_order ks1 ((snd st)\<lparr>items := (items (snd st))(ident \<mapsto> newItem)\<rparr>)
      \<and> is_order ks2 ((snd st)\<lparr>items := (items (snd st))(ident \<mapsto> newItem)\<rparr>)
      \<and> (case Set_item ks1 ks2 now st ident newItem of
            Inl p \<Rightarrow> False
          | Inr st' \<Rightarrow> ordered_calls st' calls))"

text \<open>When the item stored under a key was last used (0 for a key the map does not hold).\<close>

definition used_at :: "(nat \<Rightarrow> CacheItem) \<Rightarrow> CacheList \<Rightarrow> 64 word \<Rightarrow> int" where
  "used_at heap list key = (case items list key of None \<Rightarrow> 0 | Some i \<Rightarrow> lastUsed (heap i))"

text \<open>
  Values for the parameters, used where a statement is evaluated at a concrete input: two
  event keys with their gateway names, a JSON decoder that accepts the empty object only,
  and a store of fresh items.
\<close>

definition sampleKeyOf :: "string \<Rightarrow> evt option" where
  "sampleKeyOf s =
     (if s = ''READY'' then Some Ready else if s = ''RESUMED'' then Some Resumed else None)"


definition emptyHeap :: "nat \<Rightarrow> CacheItem" where
  "emptyHeap = (\<lambda>_. \<lparr>item = [], death = 0, lastUsed = 0\<rparr>)"

section \<open>Channel.valid\<close>

text \<open>
  C10. \<open>valid\<close> holds exactly when \<open>RateLimitPerUser\<close> is at most 120, the topic, when
  there is one, has at most 1024 bytes, and the name is empty or has between 2 and 100
  bytes.
\<close>

theorem valid_iff:
  "valid c \<longleftrightarrow>
     (unat (RateLimitPerUser c) \<le> 120
      \<and> (case Topic c of None \<Rightarrow> True | Some t \<Rightarrow> length t \<le> 1024)
      \<and> (Name c = [] \<or> (2 \<le> length (Name c) \<and> length (Name c) \<le> 100)))"
proof -
  have r: "(RateLimitPerUser c > 120) = (\<not> unat (RateLimitPerUser c) \<le> 120)"
    by (simp add: word_less_nat_alt not_le)
  show ?thesis
    unfolding valid_def r
    by (cases "Topic c") (auto simp: not_le not_less)
qed

section \<open>Fire-once handlers\<close>

lemma spawnCallbacks_typed:
  "dyn_type box = BoxPtr k \<Longrightarrow> \<forall>l\<in>set ls. dyn_type l = CallbackT k \<Longrightarrow>
   spawnCallbacks k session box ls = Inr (map (\<lambda>l. GoCallback l session box) ls)"
  by (induction ls) auto

lemma spawnCallbacks_wrong_type:
  "\<exists>l\<in>set ls. dyn_type l \<noteq> CallbackT k \<Longrightarrow>
   spawnCallbacks k session box ls = Inl InterfaceConversion"
  by (induction ls) auto

text \<open>
  Swap-removal takes exactly the listener at the index out of the slice. With a single
  fire-once handler registered under a name, among any other handlers, one event starts
  every handler once and then removes that handler and no other.
\<close>

lemma mset_swap_remove:
  assumes "i < length ls"
  shows "mset (butlast (ls[i := last ls])) = mset ls - {# ls ! i #}"
proof -
  from assms have ne: "ls \<noteq> []" by auto
  then obtain xs x where ls: "ls = xs @ [x]" by (metis append_butlast_last_id)
  show ?thesis
  proof (cases "i < length xs")
    case True
    then have "butlast (ls[i := last ls]) = xs[i := x]"
      by (simp add: ls list_update_append)
    moreover have "ls ! i = xs ! i" using True by (simp add: ls nth_append)
    moreover have "mset (xs[i := x]) = mset xs - {# xs ! i #} + {# x #}"
      using True by (simp add: mset_update)
    moreover have "xs ! i \<in># mset xs" using True by simp
    ultimately show ?thesis by (simp add: ls)
  next
    case False
    with assms have i: "i = length xs" by (simp add: ls)
    then show ?thesis by (simp add: ls)
  qed
qed

lemma single_once_handler_removed:
  assumes "listenOnceOnly d evtName = Some [i]" and "i < length (slice_of (listeners d) evtName)"
    and "keyOf evtName = Some k" and "dyn_type box = BoxPtr k"
    and "\<forall>l\<in>set (slice_of (listeners d) evtName). dyn_type l = CallbackT k"
  shows "\<exists>d' gs. triggerCallbacks keyOf d evtName session box = Inr (d', gs, [])
           \<and> mset (slice_of (listeners d') evtName)
               = mset (slice_of (listeners d) evtName) - {# slice_of (listeners d) evtName ! i #}
           \<and> listenOnceOnly d' evtName = None
           \<and> gs = map (\<lambda>l. GoCallback l session box) (slice_of (listeners d) evtName)"
  using assms spawnCallbacks_typed[OF assms(4,5), of session] mset_swap_remove[OF assms(2)]
  by (simp add: triggerCallbacks_def slice_of_def)

text \<open>
  C1. A handler registered with \<open>AddHandlerOnce\<close> is to be removed after the next
  event of its name, whatever else is registered. With two fire-once handlers registered
  for one name and nothing else, the removal loop of \<open>triggerCallbacks\<close> moves the
  second handler into slot 0 while removing the first, and then panics on the stored
  index 1 of a slice of length 1: the removal does not complete.
\<close>

theorem AddHandlerOnce_twice_panics:
  "triggerCallbacks sampleKeyOf
     (AddHandlerOnce (AddHandlerOnce NewDispatch ''READY'' (Iface (CallbackT Ready) ''A''))
        ''READY'' (Iface (CallbackT Ready) ''B''))
     ''READY'' 0 (Iface (BoxPtr Ready) ''{}'')
   = Inl IndexOutOfRange"
  by (simp add: triggerCallbacks_def AddHandlerOnce_def NewDispatch_def slice_of_def
      sampleKeyOf_def)

section \<open>Shutdown\<close>

text \<open>
  C2, as the code has it. \<open>stop\<close>, and with it \<open>Disconnect\<close>, succeeds exactly while
  the shutdown channel is still open, and leaves it closed: \<open>Disconnect\<close> then calls the
  websocket's \<open>Disconnect\<close> once. On a closed channel both panic, \<open>Disconnect\<close>
  without having called the websocket and with the dispatcher as it was. So every call
  after a successful one panics before the websocket is disconnected: shutdown is not
  idempotent.
\<close>

theorem Disconnect_once_only:
  "(shutdown d \<longrightarrow> stop d = Inl CloseOfClosedChannel)
   \<and> (\<not> shutdown d \<longrightarrow> stop d = Inr (d\<lparr>shutdown := True\<rparr>))
   \<and> (shutdown (evtDispatch c) \<longrightarrow>
        (\<exists>c1. Disconnect e c = Inl (CloseOfClosedChannel, c1)
           \<and> ws c1 = ws c \<and> evtDispatch c1 = evtDispatch c \<and> goroutines c1 = goroutines c))
   \<and> (\<not> shutdown (evtDispatch c) \<longrightarrow>
        (\<exists>c'. Disconnect e c = Inr (e, c') \<and> shutdown (evtDispatch c')
           \<and> ws c' = ws c @ [WsDisconnect]
           \<and> (\<forall>e'. \<exists>c1. Disconnect e' c' = Inl (CloseOfClosedChannel, c1)
                  \<and> ws c1 = ws c' \<and> evtDispatch c1 = evtDispatch c')))"
proof -
  have closed: "shutdown (evtDispatch x) \<Longrightarrow>
      \<exists>c1. Disconnect y x = Inl (CloseOfClosedChannel, c1)
        \<and> ws c1 = ws x \<and> evtDispatch c1 = evtDispatch x \<and> goroutines c1 = goroutines x"
    for x :: "'a Client" and y
    by (simp add: stop_def Disconnect_def logInfo_def Let_def)
  have opened: "\<not> shutdown (evtDispatch c) \<Longrightarrow>
      \<exists>c'. Disconnect e c = Inr (e, c') \<and> shutdown (evtDispatch c')
        \<and> ws c' = ws c @ [WsDisconnect]"
    by (cases e) (simp_all add: stop_def Disconnect_def logInfo_def logErr_def Let_def)
  have last: "\<not> shutdown (evtDispatch c) \<Longrightarrow>
      \<exists>c'. Disconnect e c = Inr (e, c') \<and> shutdown (evtDispatch c')
        \<and> ws c' = ws c @ [WsDisconnect]
        \<and> (\<forall>e'. \<exists>c1. Disconnect e' c' = Inl (CloseOfClosedChannel, c1)
               \<and> ws c1 = ws c' \<and> evtDispatch c1 = evtDispatch c')"
  proof -
    assume "\<not> shutdown (evtDispatch c)"
    from opened[OF this] obtain c' where
      c': "Disconnect e c = Inr (e, c')" "shutdown (evtDispatch c')"
          "ws c' = ws c @ [WsDisconnect]"
      by blast
    have "\<forall>e'. \<exists>c1. Disconnect e' c' = Inl (CloseOfClosedChannel, c1)
               \<and> ws c1 = ws c' \<and> evtDispatch c1 = evtDispatch c'"
      using closed[OF c'(2)] by blast
    with c' show ?thesis by blast
  qed
  have s1: "shutdown d \<longrightarrow> stop d = Inl CloseOfClosedChannel"
    and s2: "\<not> shutdown d \<longrightarrow> stop d = Inr (d\<lparr>shutdown := True\<rparr>)"
    by (simp_all add: stop_def)
  from s1 s2 closed[of c e] last show ?thesis by blast
qed

theorem Disconnect_once_only_witness:
  "\<not> shutdown NewDispatch \<and> stop NewDispatch = Inr (NewDispatch\<lparr>shutdown := True\<rparr>)
   \<and> shutdown (NewDispatch\<lparr>shutdown := True\<rparr>)
   \<and> stop (NewDispatch\<lparr>shutdown := True\<rparr>) = Inl CloseOfClosedChannel
   \<and> \<not> shutdown (evtDispatch (NewClient :: string Client))
   \<and> (\<exists>c'. Disconnect None (NewClient :: string Client) = Inr (None, c')
          \<and> shutdown (evtDispatch c') \<and> ws c' = [WsDisconnect]
          \<and> (\<exists>c1. Disconnect None c' = Inl (CloseOfClosedChannel, c1) \<and> ws c1 = [WsDisconnect]))
   \<and> shutdown (evtDispatch
         ((NewClient :: string Client)\<lparr>evtDispatch := NewDispatch\<lparr>shutdown := True\<rparr>\<rparr>))
   \<and> (\<exists>c1. Disconnect None
               ((NewClient :: string Client)\<lparr>evtDispatch := NewDispatch\<lparr>shutdown := True\<rparr>\<rparr>)
             = Inl (CloseOfClosedChannel, c1) \<and> ws c1 = [])"
proof -
  let ?c = "NewClient :: string Client"
  let ?k = "?c\<lparr>evtDispatch := NewDispatch\<lparr>shutdown := True\<rparr>\<rparr>"
  have o: "\<not> shutdown NewDispatch" and o': "\<not> shutdown (evtDispatch ?c)"
    and cl: "shutdown (NewDispatch\<lparr>shutdown := True\<rparr>)" and cl': "shutdown (evtDispatch ?k)"
    and w: "ws ?c = []" and w': "ws ?k = []"
    by (simp_all add: NewDispatch_def NewClient_def)
  note t1 = Disconnect_once_only [of NewDispatch ?c None]
  note t2 = Disconnect_once_only [of "NewDispatch\<lparr>shutdown := True\<rparr>" ?k None]
  from t1 o have a: "stop NewDispatch = Inr (NewDispatch\<lparr>shutdown := True\<rparr>)" by blast
  from t2 cl have b: "stop (NewDispatch\<lparr>shutdown := True\<rparr>) = Inl CloseOfClosedChannel"
    by blast
  from t1 o' obtain c' where c': "Disconnect None ?c = Inr (None, c')"
      "shutdown (evtDispatch c')" "ws c' = ws ?c @ [WsDisconnect]"
      "\<forall>e'. \<exists>c1. Disconnect e' c' = Inl (CloseOfClosedChannel, c1)
          \<and> ws c1 = ws c' \<and> evtDispatch c1 = evtDispatch c'"
    by blast
  from c'(4) obtain c1 where c1: "Disconnect None c' = Inl (CloseOfClosedChannel, c1)"
      "ws c1 = ws c'"
    by blast
  have d: "\<exists>c'. Disconnect None ?c = Inr (None, c')
          \<and> shutdown (evtDispatch c') \<and> ws c' = [WsDisconnect]
          \<and> (\<exists>c1. Disconnect None c' = Inl (CloseOfClosedChannel, c1) \<and> ws c1 = [WsDisconnect])"
    using c'(1,2,3) c1 w by auto
  from t2 cl' obtain k1 where "Disconnect None ?k = Inl (CloseOfClosedChannel, k1)" "ws k1 = ws ?k"
    by blast
  then have f: "\<exists>c1. Disconnect None ?k = Inl (CloseOfClosedChannel, c1) \<and> ws c1 = []"
    using w' by auto
  from o a cl b o' d cl' f show ?thesis by (intro conjI)
qed

text \<open>
  The claim as stated fails on a fresh dispatcher and a fresh client: the first call
  closes the channel, the second one panics.
\<close>

theorem stop_twice_counterexample:
  "stop NewDispatch = Inr (NewDispatch\<lparr>shutdown := True\<rparr>)
   \<and> stop (NewDispatch\<lparr>shutdown := True\<rparr>) = Inl CloseOfClosedChannel
   \<and> Disconnect None (NewClient :: string Client)
       = Inr (None, \<lparr>evtDispatch = NewDispatch\<lparr>shutdown := True\<rparr>, ws = [WsDisconnect],
                     goroutines = [],
                     logged = [[], ''info: Closing Discord gateway connection'',
                               ''info: Disconnected'']\<rparr>)
   \<and> Disconnect None
        \<lparr>evtDispatch = NewDispatch\<lparr>shutdown := True\<rparr>, ws = [WsDisconnect :: string ws_call],
         goroutines = [],
         logged = [[], ''info: Closing Discord gateway connection'', ''info: Disconnected'']\<rparr>
       = Inl (CloseOfClosedChannel,
              \<lparr>evtDispatch = NewDispatch\<lparr>shutdown := True\<rparr>, ws = [WsDisconnect],
               goroutines = [],
               logged = [[], ''info: Closing Discord gateway connection'', ''info: Disconnected'',
                         [], ''info: Closing Discord gateway connection'']\<rparr>)"
  by (simp add: stop_def NewDispatch_def Disconnect_def NewClient_def logInfo_def logErr_def)

section \<open>Decoding and dispatching a received frame\<close>

lemma triggerChan_frame:
  "triggerChan keyOf d evtName box = Inr (d', out) \<Longrightarrow>
   allChan d' = allChan d \<and> listeners d' = listeners d
   \<and> listenOnceOnly d' = listenOnceOnly d \<and> shutdown d' = shutdown d"
  by (auto simp: triggerChan_def split: option.splits if_splits)

lemma triggerCallbacks_frame:
  "triggerCallbacks keyOf d evtName session box = Inr (d', gs, out) \<Longrightarrow>
   allChan d' = allChan d \<and> typedChans d' = typedChans d \<and> shutdown d' = shutdown d"
  by (auto simp: triggerCallbacks_def split: option.splits sum.splits prod.splits)




section \<open>Delivery to channels and callbacks\<close>

text \<open>No step of the event handler sends on \<open>allChan\<close>.\<close>

lemma eventHandlerStep_allChan:
  "eventHandlerStep eventOf keyOf unmarshal c received = Inr c' \<Longrightarrow>
   allChan (evtDispatch c') = allChan (evtDispatch c)"
  by (auto simp: eventHandlerStep_def Let_def
      split: option.splits sum.splits prod.splits
      dest!: triggerChan_frame triggerCallbacks_frame)

lemma eventHandler_allChan:
  "eventHandler eventOf keyOf unmarshal c frames = Inr c' \<Longrightarrow>
   allChan (evtDispatch c') = allChan (evtDispatch c)"
proof (induction frames arbitrary: c)
  case Nil
  then show ?case by simp
next
  case (Cons f frames)
  then show ?case
    by (auto split: sum.splits dest: eventHandlerStep_allChan)
qed

text \<open>
  C4. Every dispatched event is to be pushed onto \<open>allChan\<close> and onto the channel of
  its event. \<open>triggerChan\<close> sends a READY box on \<open>readyChan\<close> only: nothing is
  sent on \<open>allChan\<close>.
\<close>

theorem triggerChan_skips_allChan:
  "triggerChan sampleKeyOf NewDispatch ''READY'' (Iface (BoxPtr Ready) ''{}'')
     = Inr (NewDispatch\<lparr>typedChans :=
              (typedChans NewDispatch)(Ready := [Iface (BoxPtr Ready) ''{}''])\<rparr>, [])
   \<and> allChan (NewDispatch\<lparr>typedChans :=
              (typedChans NewDispatch)(Ready := [Iface (BoxPtr Ready) ''{}''])\<rparr>) = []"
  by (simp add: triggerChan_def sampleKeyOf_def NewDispatch_def)

text \<open>
  C7, as the code has it. For an event whose name is one of the dispatcher's keys: when
  the box has the event's type and the listeners under the name all have the event's
  callback type, the loop starts exactly one goroutine per listener of the slice, in the
  order of the slice, each with the session and the box; \<open>triggerCallbacks\<close> then
  returns those goroutines unless the removal of the fire-once handlers panics, and with
  no fire-once handler under the name it returns with the dispatcher unchanged. When some
  listener under the name has another type, \<open>triggerCallbacks\<close> panics at the type
  assertion.
\<close>

theorem triggerCallbacks_each_once:
  assumes "keyOf evtName = Some k"
  shows "(dyn_type box = BoxPtr k
            \<and> (\<forall>l\<in>set (slice_of (listeners d) evtName). dyn_type l = CallbackT k) \<longrightarrow>
          spawnCallbacks k session box (slice_of (listeners d) evtName)
            = Inr (map (\<lambda>l. GoCallback l session box) (slice_of (listeners d) evtName))
          \<and> triggerCallbacks keyOf d evtName session box
              = (case removeOnce (slice_of (listeners d) evtName)
                        (slice_of (listenOnceOnly d) evtName) of
                   Inl p \<Rightarrow> Inl p
                 | Inr ls \<Rightarrow>
                     Inr (d\<lparr>listeners :=
                              (if slice_of (listenOnceOnly d) evtName = [] then listeners d
                               else (listeners d)(evtName \<mapsto> ls)),
                            listenOnceOnly := (listenOnceOnly d)(evtName := None)\<rparr>,
                          map (\<lambda>l. GoCallback l session box) (slice_of (listeners d) evtName),
                          []))
          \<and> (listenOnceOnly d evtName = None \<longrightarrow>
               triggerCallbacks keyOf d evtName session box
                 = Inr (d, map (\<lambda>l. GoCallback l session box) (slice_of (listeners d) evtName), []))
          \<and> (\<forall>d' gs out. triggerCallbacks keyOf d evtName session box = Inr (d', gs, out) \<longrightarrow>
               gs = map (\<lambda>l. GoCallback l session box) (slice_of (listeners d) evtName)))
         \<and> ((\<exists>l\<in>set (slice_of (listeners d) evtName). dyn_type l \<noteq> CallbackT k) \<longrightarrow>
              triggerCallbacks keyOf d evtName session box = Inl InterfaceConversion)"
proof -
  let ?ls = "slice_of (listeners d) evtName"
  let ?gs = "map (\<lambda>l. GoCallback l session box) ?ls"
  have typed: "spawnCallbacks k session box ?ls = Inr ?gs
      \<and> triggerCallbacks keyOf d evtName session box
          = (case removeOnce ?ls (slice_of (listenOnceOnly d) evtName) of
               Inl p \<Rightarrow> Inl p
             | Inr ls \<Rightarrow>
                 Inr (d\<lparr>listeners :=
                          (if slice_of (listenOnceOnly d) evtName = [] then listeners d
                           else (listeners d)(evtName \<mapsto> ls)),
                        listenOnceOnly := (listenOnceOnly d)(evtName := None)\<rparr>,
                      ?gs, []))
      \<and> (listenOnceOnly d evtName = None \<longrightarrow>
           triggerCallbacks keyOf d evtName session box = Inr (d, ?gs, []))
      \<and> (\<forall>d' gs out. triggerCallbacks keyOf d evtName session box = Inr (d', gs, out) \<longrightarrow>
           gs = ?gs)"
    if b: "dyn_type box = BoxPtr k" and t: "\<forall>l\<in>set ?ls. dyn_type l = CallbackT k"
  proof -
    have s: "spawnCallbacks k session box ?ls = Inr ?gs"
      using b t by (rule spawnCallbacks_typed)
    have tot: "triggerCallbacks keyOf d evtName session box
          = (case removeOnce ?ls (slice_of (listenOnceOnly d) evtName) of
               Inl p \<Rightarrow> Inl p
             | Inr ls \<Rightarrow>
                 Inr (d\<lparr>listeners :=
                          (if slice_of (listenOnceOnly d) evtName = [] then listeners d
                           else (listeners d)(evtName \<mapsto> ls)),
                        listenOnceOnly := (listenOnceOnly d)(evtName := None)\<rparr>,
                      ?gs, []))"
      using s assms by (simp add: triggerCallbacks_def)
    have u: "listenOnceOnly d evtName = None \<Longrightarrow>
             d\<lparr>listenOnceOnly := (listenOnceOnly d)(evtName := None)\<rparr> = d"
      by (simp add: fun_upd_idem)
    have none: "listenOnceOnly d evtName = None \<longrightarrow>
           triggerCallbacks keyOf d evtName session box = Inr (d, ?gs, [])"
      using u by (auto simp: tot slice_of_def)
    have ret: "\<forall>d' gs out. triggerCallbacks keyOf d evtName session box = Inr (d', gs, out) \<longrightarrow>
           gs = ?gs"
      by (auto simp: tot split: sum.splits)
    from s tot none ret show ?thesis by blast
  qed
  have wrong: "triggerCallbacks keyOf d evtName session box = Inl InterfaceConversion"
    if "\<exists>l\<in>set ?ls. dyn_type l \<noteq> CallbackT k"
    using spawnCallbacks_wrong_type[OF that, of session box] assms
    by (simp add: triggerCallbacks_def)
  from typed wrong show ?thesis by blast
qed

theorem triggerCallbacks_each_once_witness:
  "sampleKeyOf ''READY'' = Some Ready \<and> dyn_type (Iface (BoxPtr Ready) ''{}'') = BoxPtr Ready
   \<and> slice_of (listeners
         (AddHandler (AddHandler NewDispatch ''READY'' (Iface (CallbackT Ready) ''A''))
                     ''READY'' (Iface (CallbackT Ready) ''B''))) ''READY''
       = [Iface (CallbackT Ready) ''A'', Iface (CallbackT Ready) ''B'']
   \<and> triggerCallbacks sampleKeyOf
       (AddHandler (AddHandler NewDispatch ''READY'' (Iface (CallbackT Ready) ''A''))
                   ''READY'' (Iface (CallbackT Ready) ''B''))
       ''READY'' 0 (Iface (BoxPtr Ready) ''{}'')
     = Inr (AddHandler (AddHandler NewDispatch ''READY'' (Iface (CallbackT Ready) ''A''))
                   ''READY'' (Iface (CallbackT Ready) ''B''),
            [GoCallback (Iface (CallbackT Ready) ''A'') 0 (Iface (BoxPtr Ready) ''{}''),
             GoCallback (Iface (CallbackT Ready) ''B'') 0 (Iface (BoxPtr Ready) ''{}'')], [])
   \<and> slice_of (listeners
         (AddHandler (AddHandler NewDispatch ''READY'' (Iface (CallbackT Ready) ''A''))
                     ''READY'' (Iface (OtherT ''string'') ''B''))) ''READY''
       = [Iface (CallbackT Ready) ''A'', Iface (OtherT ''string'') ''B'']
   \<and> triggerCallbacks sampleKeyOf
       (AddHandler (AddHandler NewDispatch ''READY'' (Iface (CallbackT Ready) ''A''))
                   ''READY'' (Iface (OtherT ''string'') ''B''))
       ''READY'' 0 (Iface (BoxPtr Ready) ''{}'')
     = Inl InterfaceConversion"
proof -
  let ?box = "Iface (BoxPtr Ready) ''{}''"
  let ?d = "AddHandler (AddHandler NewDispatch ''READY'' (Iface (CallbackT Ready) ''A''))
                   ''READY'' (Iface (CallbackT Ready) ''B'')"
  let ?w = "AddHandler (AddHandler NewDispatch ''READY'' (Iface (CallbackT Ready) ''A''))
                   ''READY'' (Iface (OtherT ''string'') ''B'')"
  have k: "sampleKeyOf ''READY'' = Some Ready" by (simp add: sampleKeyOf_def)
  have b: "dyn_type ?box = BoxPtr Ready" by simp
  have ls: "slice_of (listeners ?d) ''READY''
            = [Iface (CallbackT Ready) ''A'', Iface (CallbackT Ready) ''B'']"
    by (simp add: AddHandler_def NewDispatch_def slice_of_def)
  have lw: "slice_of (listeners ?w) ''READY''
            = [Iface (CallbackT Ready) ''A'', Iface (OtherT ''string'') ''B'']"
    by (simp add: AddHandler_def NewDispatch_def slice_of_def)
  have once: "listenOnceOnly ?d ''READY'' = None"
    by (simp add: AddHandler_def NewDispatch_def)
  have t: "dyn_type ?box = BoxPtr Ready
      \<and> (\<forall>l\<in>set (slice_of (listeners ?d) ''READY''). dyn_type l = CallbackT Ready)"
    unfolding ls by simp
  have x: "\<exists>l\<in>set (slice_of (listeners ?w) ''READY''). dyn_type l \<noteq> CallbackT Ready"
    unfolding lw by simp
  note th = triggerCallbacks_each_once [where keyOf = sampleKeyOf and evtName = "''READY''"
      and k = Ready and box = ?box and session = 0, OF k]
  from th [where d = ?d, THEN conjunct1, rule_format, OF t,
      THEN conjunct2, THEN conjunct2, THEN conjunct1, rule_format, OF once]
  have "triggerCallbacks sampleKeyOf ?d ''READY'' 0 ?box
        = Inr (?d, map (\<lambda>l. GoCallback l 0 ?box) (slice_of (listeners ?d) ''READY''), [])" .
  then have good: "triggerCallbacks sampleKeyOf ?d ''READY'' 0 ?box
        = Inr (?d, [GoCallback (Iface (CallbackT Ready) ''A'') 0 ?box,
                    GoCallback (Iface (CallbackT Ready) ''B'') 0 ?box], [])"
    unfolding ls by simp
  from th [where d = ?w, THEN conjunct2, rule_format, OF x]
  have bad: "triggerCallbacks sampleKeyOf ?w ''READY'' 0 ?box = Inl InterfaceConversion" .
  from k b ls good lw bad show ?thesis by (intro conjI)
qed

text \<open>
  The claim as stated fails when a listener registered under the name has another type
  (\<open>AddHandler\<close> takes any \<open>interface{}\<close>): the type assertion on the first
  listener panics, before any goroutine is started.
\<close>

theorem wrong_type_listener_counterexample:
  "triggerCallbacks sampleKeyOf
     (AddHandler (AddHandler NewDispatch ''READY'' (Iface (CallbackT Resumed) ''A''))
                  ''READY'' (Iface (CallbackT Ready) ''B''))
     ''READY'' 0 (Iface (BoxPtr Ready) ''{}'')
   = Inl InterfaceConversion"
  by (simp add: triggerCallbacks_def AddHandler_def NewDispatch_def slice_of_def
      sampleKeyOf_def)

section \<open>Emit and Connect\<close>

text \<open>
  C6. \<open>Emit\<close> hands the command to the websocket exactly when it is one of
  \<open>CommandUpdateStatus\<close>, \<open>CommandUpdateVoiceState\<close> and
  \<open>CommandRequestGuildMembers\<close>; on any other command nothing changes and the
  websocket is not called.
\<close>

theorem Emit_whitelist:
  "Emit CommandUpdateStatus CommandUpdateVoiceState CommandRequestGuildMembers c command data
     = (if command \<in> {CommandUpdateStatus, CommandUpdateVoiceState, CommandRequestGuildMembers}
        then c\<lparr>ws := ws c @ [WsEmit command data]\<rparr> else c)"
  by (simp add: Emit_def)

text \<open>
  C8, as the code has it. When the websocket's \<open>Connect\<close> returns an error,
  \<open>Connect\<close> returns that error, having called the websocket once and started one
  goroutine, the dispatcher's drain; the event handler is not started.
\<close>

theorem Connect_error:
  "fst (Connect (Some err) c) = Some err
   \<and> goroutines (snd (Connect (Some err) c)) = goroutines c @ [GoDrain]
   \<and> ws (snd (Connect (Some err) c)) = ws c @ [WsConnect]"
  by (simp add: Connect_def start_def alwaysListenToChans_def logInfo_def logErr_def Let_def)

text \<open>
  The claim as stated fails on a fresh client: when the error comes back, the drain
  goroutine has been started.
\<close>

theorem Connect_error_counterexample:
  "Connect (Some ''missing token'') (NewClient :: string Client)
     = (Some ''missing token'',
        \<lparr>evtDispatch = NewDispatch, ws = [WsConnect], goroutines = [GoDrain],
         logged = [''info: Connecting to discord Gateway'', ''error: missing token'']\<rparr>)"
  by (simp add: Connect_def start_def alwaysListenToChans_def logInfo_def logErr_def Let_def
      NewClient_def)

section \<open>Tracked events\<close>

text \<open>
  What the tests of websocket/client\_test.go check holds of the model: a name registered
  twice is tracked once, removing another name changes nothing, removing the name after
  one registration untracks it.
\<close>

lemma TestManager_RegisterEvent:
  "card (dom (trackedEvents (RegisterEvent emptyClient ''test''))) = 1
   \<and> card (dom (trackedEvents (RegisterEvent (RegisterEvent emptyClient ''test'') ''test''))) = 1"
  by (simp add: RegisterEvent_def emptyClient_def)

lemma TestManager_RemoveEvent:
  "card (dom (trackedEvents (RemoveEvent (RegisterEvent emptyClient ''test'') ''sdfsdf''))) = 1
   \<and> card (dom (trackedEvents
         (RemoveEvent (RemoveEvent (RegisterEvent emptyClient ''test'') ''sdfsdf'') ''test''))) = 0"
  by (simp add: RegisterEvent_def RemoveEvent_def emptyClient_def)

lemma count_apply_ops:
  "\<forall>e. trackedEvents m e \<noteq> Some 0 \<Longrightarrow>
   count_of (apply_ops m ops) e = registrations (count_of m e) e ops
   \<and> (\<forall>e. trackedEvents (apply_ops m ops) e \<noteq> Some 0)"
proof (induction m ops rule: apply_ops.induct)
  case (1 m)
  then show ?case by simp
next
  case (2 m e' ops)
  have inv: "\<forall>x. trackedEvents (RegisterEvent m e') x \<noteq> Some 0"
    using 2(2) by (auto simp: RegisterEvent_def split: option.splits)
  have c: "count_of (RegisterEvent m e') e = (if e' = e then Suc (count_of m e) else count_of m e)"
    by (auto simp: RegisterEvent_def count_of_def split: option.splits)
  show ?case using 2(1)[OF inv] c by simp
next
  case (3 m e' ops)
  have inv: "\<forall>x. trackedEvents (RemoveEvent m e') x \<noteq> Some 0"
    using 3(2) by (auto simp: RemoveEvent_def split: option.splits)
  have c: "count_of (RemoveEvent m e') e = (if e' = e then count_of m e - 1 else count_of m e)"
    using 3(2) by (auto simp: RemoveEvent_def count_of_def split: option.splits)
  show ?case using 3(1)[OF inv] c by simp
qed

lemma registrations_append:
  "registrations n e (ops @ ops') = registrations (registrations n e ops) e ops'"
  by (induction n e ops rule: registrations.induct) auto

text \<open>
  C5. After any calls of \<open>RegisterEvent\<close> and \<open>RemoveEvent\<close> on a new client, a name
  is tracked exactly while its registration count is above zero, and the stored count is
  that count; from a point where the name is untracked, registering it twice and removing
  it once leaves it tracked with a count above zero, and a second removal untracks it.
\<close>

theorem tracked_iff_count:
  "(tracked (apply_ops emptyClient ops) e \<longleftrightarrow> 0 < registrations 0 e ops)
   \<and> count_of (apply_ops emptyClient ops) e = registrations 0 e ops
   \<and> (registrations 0 e ops = 0 \<longrightarrow>
        tracked (apply_ops emptyClient (ops @ [Register e, Register e, Remove e])) e
        \<and> 0 < count_of (apply_ops emptyClient (ops @ [Register e, Register e, Remove e])) e
        \<and> \<not> tracked
            (apply_ops emptyClient (ops @ [Register e, Register e, Remove e, Remove e])) e)"
proof -
  have inv: "\<forall>x. trackedEvents emptyClient x \<noteq> Some 0" by (simp add: emptyClient_def)
  have c0: "count_of emptyClient e = 0" by (simp add: emptyClient_def count_of_def)
  have cnt: "count_of (apply_ops emptyClient os) e = registrations 0 e os" for os
    using count_apply_ops[OF inv, of os e] c0 by simp
  have nz: "trackedEvents (apply_ops emptyClient os) e \<noteq> Some 0" for os
    using count_apply_ops[OF inv, of os e] by simp
  have tr: "tracked (apply_ops emptyClient os) e \<longleftrightarrow> 0 < registrations 0 e os" for os
    using cnt[of os] nz[of os] by (auto simp: tracked_def count_of_def split: option.splits)
  show ?thesis
    by (simp add: tr cnt registrations_append)
qed

theorem tracked_iff_count_witness:
  "registrations 0 ''x'' [Register ''y'', Register ''x'', Remove ''x''] = 0
   \<and> tracked (apply_ops emptyClient
        ([Register ''y'', Register ''x'', Remove ''x'']
           @ [Register ''x'', Register ''x'', Remove ''x''])) ''x''
   \<and> \<not> tracked (apply_ops emptyClient
        ([Register ''y'', Register ''x'', Remove ''x'']
           @ [Register ''x'', Register ''x'', Remove ''x'', Remove ''x''])) ''x''"
proof -
  have r: "registrations 0 ''x'' [Register ''y'', Register ''x'', Remove ''x''] = 0"
    by simp
  note th = tracked_iff_count [of "[Register ''y'', Register ''x'', Remove ''x'']" "''x''",
      THEN conjunct2, THEN conjunct2, rule_format, OF r]
  show ?thesis using r th by blast
qed

section \<open>The cache list\<close>

text \<open>
  Under orders that list the keys of the map, \<open>removeLRU\<close> returns and removes
  exactly one key, so a \<open>Set\<close> on a list within its nonzero limit leaves it within
  the limit, and so does every well-ordered run from a new list.
\<close>

lemma lruLoop_in_dom:
  "set ks \<subseteq> dom (items l) \<Longrightarrow> lruKey \<in> dom (items l) \<Longrightarrow>
   \<exists>i key. lruLoop h l ex ks (Some j, lruKey) = Inr (Some i, key) \<and> key \<in> dom (items l)"
proof (induction ks arbitrary: j lruKey)
  case Nil
  then show ?case by simp
next
  case (Cons k ks)
  from Cons.prems obtain a where a: "items l k = Some a" by auto
  from Cons.prems have sub: "set ks \<subseteq> dom (items l)" and kd: "k \<in> dom (items l)" by auto
  show ?case
    using Cons.IH[OF sub Cons.prems(2), of j] Cons.IH[OF sub kd, of a] a
    by auto
qed

lemma removeLRU_card:
  assumes "is_order ks1 l" and "is_order ks2 l" and "dom (items l) \<noteq> {}"
  shows "\<exists>l'. removeLRU ks1 ks2 h l ex = Inr l'
           \<and> card (dom (items l')) = card (dom (items l)) - 1
           \<and> finite (dom (items l')) \<and> limit l' = limit l"
proof -
  from assms(1,3) obtain k ks where ks1: "ks1 = k # ks" and kd: "k \<in> dom (items l)"
    by (cases ks1) (auto simp: is_order_def)
  then obtain j where j: "items l k = Some j" by auto
  have f: "First ks1 l = (Some j, k)" by (simp add: First_def ks1 j)
  have sub: "set ks2 \<subseteq> dom (items l)" using assms(2) by (simp add: is_order_def)
  have fin: "finite (dom (items l))" using assms(2) by (metis is_order_def List.finite_set)
  from lruLoop_in_dom[OF sub kd, of h ex j] obtain i key where
    r: "lruLoop h l ex ks2 (Some j, k) = Inr (Some i, key)" and key: "key \<in> dom (items l)"
    by blast
  show ?thesis
    using r key fin by (simp add: removeLRU_def f)
qed

lemma Set_item_within_limit:
  assumes "limit l \<noteq> 0" and "size_items l \<le> unat (limit l)" and "finite (dom (items l))"
    and "is_order ks1 (l\<lparr>items := (items l)(k \<mapsto> p)\<rparr>)"
    and "is_order ks2 (l\<lparr>items := (items l)(k \<mapsto> p)\<rparr>)"
  shows "\<exists>h' l'. Set_item ks1 ks2 now (h, l) k p = Inr (h', l')
           \<and> size_items l' \<le> unat (limit l') \<and> limit l' = limit l
           \<and> finite (dom (items l'))"
proof (cases "items l k")
  case (Some i)
  then show ?thesis using assms(2,3) by (simp add: Set_item_def Let_def)
next
  case None
  let ?l1 = "l\<lparr>items := (items l)(k \<mapsto> p)\<rparr>"
  have c1: "size_items ?l1 = Suc (size_items l)"
    using None assms(3) by (simp add: size_items_def domIff)
  show ?thesis
  proof (cases "size_items ?l1 \<le> unat (limit l)")
    case True
    then show ?thesis using None assms(3) by (simp add: Set_item_def Let_def)
  next
    case False
    have ne: "dom (items ?l1) \<noteq> {}" by simp
    from removeLRU_card[OF assms(4,5) ne, of "update h p now" k] obtain l' where
      r: "removeLRU ks1 ks2 (update h p now) ?l1 k = Inr l'"
      and c: "card (dom (items l')) = card (dom (items ?l1)) - 1"
      and f: "finite (dom (items l'))" and lim: "limit l' = limit l"
      by auto
    have "size_items l' = size_items l" using c c1 by (simp add: size_items_def)
    then show ?thesis
      using None False assms(1,2) r f lim by (simp add: Set_item_def Let_def)
  qed
qed

text \<open>
  The loop ends on a key that is the starting one or a visited key other than the
  exception, and that was used no later than any visited key other than the exception.
  So when some other item is strictly older than the new one, \<open>Set\<close> evicts a least
  recently used item among the others.
\<close>

lemma lruLoop_min:
  "set ks \<subseteq> dom (items l) \<Longrightarrow> items l lruKey = Some j \<Longrightarrow>
   \<exists>i key. lruLoop h l ex ks (Some j, lruKey) = Inr (Some i, key)
      \<and> items l key = Some i
      \<and> used_at h l key \<le> used_at h l lruKey
      \<and> (\<forall>k\<in>set ks. k \<noteq> ex \<longrightarrow> used_at h l key \<le> used_at h l k)
      \<and> (key = lruKey \<or> (key \<in> set ks \<and> key \<noteq> ex))"
proof (induction ks arbitrary: j lruKey)
  case Nil
  then show ?case by simp
next
  case (Cons k ks)
  from Cons.prems obtain a where a: "items l k = Some a" by auto
  from Cons.prems have sub: "set ks \<subseteq> dom (items l)" by auto
  show ?case
  proof (cases "k \<noteq> ex \<and> lastUsed (h a) < lastUsed (h j)")
    case True
    from Cons.IH[OF sub a] obtain i key where
      r: "lruLoop h l ex ks (Some a, k) = Inr (Some i, key)" and ik: "items l key = Some i"
      and le: "used_at h l key \<le> used_at h l k"
      and mn: "\<forall>k'\<in>set ks. k' \<noteq> ex \<longrightarrow> used_at h l key \<le> used_at h l k'"
      and wh: "key = k \<or> (key \<in> set ks \<and> key \<noteq> ex)"
      by blast
    have lt: "used_at h l k < used_at h l lruKey"
      using True a Cons.prems(2) by (simp add: used_at_def)
    have "lruLoop h l ex (k # ks) (Some j, lruKey) = Inr (Some i, key)"
      using True a r by simp
    moreover have "used_at h l key \<le> used_at h l lruKey" using le lt by simp
    moreover have "\<forall>k'\<in>set (k # ks). k' \<noteq> ex \<longrightarrow> used_at h l key \<le> used_at h l k'"
      using mn le by simp
    moreover have "key = lruKey \<or> (key \<in> set (k # ks) \<and> key \<noteq> ex)"
      using wh True by auto
    ultimately show ?thesis using ik by blast
  next
    case False
    from Cons.IH[OF sub Cons.prems(2)] obtain i key where
      r: "lruLoop h l ex ks (Some j, lruKey) = Inr (Some i, key)" and ik: "items l key = Some i"
      and le: "used_at h l key \<le> used_at h l lruKey"
      and mn: "\<forall>k'\<in>set ks. k' \<noteq> ex \<longrightarrow> used_at h l key \<le> used_at h l k'"
      and wh: "key = lruKey \<or> (key \<in> set ks \<and> key \<noteq> ex)"
      by blast
    have ge: "k \<noteq> ex \<Longrightarrow> used_at h l lruKey \<le> used_at h l k"
      using False a Cons.prems(2) by (simp add: used_at_def)
    have "lruLoop h l ex (k # ks) (Some j, lruKey) = Inr (Some i, key)"
      using False a r by auto
    moreover have "\<forall>k'\<in>set (k # ks). k' \<noteq> ex \<longrightarrow> used_at h l key \<le> used_at h l k'"
      using mn le ge by auto
    moreover have "key = lruKey \<or> (key \<in> set (k # ks) \<and> key \<noteq> ex)"
      using wh by auto
    ultimately show ?thesis using ik le by blast
  qed
qed

lemma removeLRU_evicts_lru:
  assumes "is_order ks1 l" and "is_order ks2 l"
    and "\<exists>k\<in>dom (items l). k \<noteq> ex \<and> used_at h l k < used_at h l ex"
  shows "\<exists>victim. removeLRU ks1 ks2 h l ex = Inr (l\<lparr>items := (items l)(victim := None)\<rparr>)
           \<and> victim \<in> dom (items l) \<and> victim \<noteq> ex
           \<and> (\<forall>k\<in>dom (items l). k \<noteq> ex \<longrightarrow> used_at h l victim \<le> used_at h l k)"
proof -
  from assms(1,3) obtain k0 ks where ks1: "ks1 = k0 # ks" and kd: "k0 \<in> dom (items l)"
    by (cases ks1) (auto simp: is_order_def)
  then obtain j where j: "items l k0 = Some j" by auto
  have f: "First ks1 l = (Some j, k0)" by (simp add: First_def ks1 j)
  have eq: "set ks2 = dom (items l)" using assms(2) by (simp add: is_order_def)
  then have sub: "set ks2 \<subseteq> dom (items l)" by simp
  from lruLoop_min[OF sub j, of h ex] obtain i key where
    r: "lruLoop h l ex ks2 (Some j, k0) = Inr (Some i, key)" and ik: "items l key = Some i"
    and le: "used_at h l key \<le> used_at h l k0"
    and mn: "\<forall>k\<in>set ks2. k \<noteq> ex \<longrightarrow> used_at h l key \<le> used_at h l k"
    and wh: "key = k0 \<or> (key \<in> set ks2 \<and> key \<noteq> ex)"
    by blast
  from assms(3) obtain k where k: "k \<in> dom (items l)" "k \<noteq> ex" "used_at h l k < used_at h l ex"
    by blast
  have "used_at h l key \<le> used_at h l k" using mn k eq by simp
  then have "used_at h l key < used_at h l ex" using k(3) by simp
  then have ne: "key \<noteq> ex" by auto
  have "removeLRU ks1 ks2 h l ex = Inr (l\<lparr>items := (items l)(key := None)\<rparr>)"
    by (simp add: removeLRU_def f r)
  moreover have "key \<in> dom (items l)" using ik by auto
  ultimately show ?thesis using ne mn eq by blast
qed

lemma Set_item_evicts_lru:
  assumes "items l k = None" and "limit l \<noteq> 0" and "unat (limit l) < Suc (size_items l)"
    and "finite (dom (items l))"
    and "is_order ks1 (l\<lparr>items := (items l)(k \<mapsto> p)\<rparr>)"
    and "is_order ks2 (l\<lparr>items := (items l)(k \<mapsto> p)\<rparr>)"
    and "\<exists>k'\<in>dom (items l). used_at (update h p now) l k' < now"
  shows "\<exists>victim\<in>dom (items l).
           Set_item ks1 ks2 now (h, l) k p
             = Inr (update h p now, l\<lparr>items := ((items l)(k \<mapsto> p))(victim := None)\<rparr>)
           \<and> (\<forall>k'\<in>dom (items l).
                 used_at (update h p now) l victim \<le> used_at (update h p now) l k')"
proof -
  let ?h = "update h p now"
  let ?l1 = "l\<lparr>items := (items l)(k \<mapsto> p)\<rparr>"
  have other: "k' \<in> dom (items l) \<Longrightarrow> used_at ?h ?l1 k' = used_at ?h l k'" for k'
    using assms(1) by (auto simp: used_at_def)
  have new: "used_at ?h ?l1 k = now" by (simp add: used_at_def update_def)
  have d1: "dom (items ?l1) = insert k (dom (items l))" by simp
  have kn: "k \<notin> dom (items l)" using assms(1) by (simp add: domIff)
  have c1: "size_items ?l1 = Suc (size_items l)"
    using kn assms(4) by (simp add: size_items_def)
  from assms(7) obtain k' where k': "k' \<in> dom (items l)" "used_at ?h l k' < now" by blast
  have "k' \<in> dom (items ?l1) \<and> k' \<noteq> k \<and> used_at ?h ?l1 k' < used_at ?h ?l1 k"
    using k' kn other[OF k'(1)] new by auto
  then have ex: "\<exists>x\<in>dom (items ?l1). x \<noteq> k \<and> used_at ?h ?l1 x < used_at ?h ?l1 k" by blast
  from removeLRU_evicts_lru[OF assms(5,6) ex] obtain victim where
    r: "removeLRU ks1 ks2 ?h ?l1 k = Inr (?l1\<lparr>items := (items ?l1)(victim := None)\<rparr>)"
    and vd: "victim \<in> dom (items ?l1)" and vk: "victim \<noteq> k"
    and mn: "\<forall>x\<in>dom (items ?l1). x \<noteq> k \<longrightarrow> used_at ?h ?l1 victim \<le> used_at ?h ?l1 x"
    by blast
  have vd': "victim \<in> dom (items l)" using vd vk by auto
  have s: "Set_item ks1 ks2 now (h, l) k p
             = Inr (?h, l\<lparr>items := ((items l)(k \<mapsto> p))(victim := None)\<rparr>)"
    using assms(1,2,3) c1 r by (simp add: Set_item_def Let_def not_le)
  have "\<forall>x\<in>dom (items l). used_at ?h l victim \<le> used_at ?h l x"
  proof
    fix x assume x: "x \<in> dom (items l)"
    then have "x \<in> dom (items ?l1)" "x \<noteq> k" using kn by auto
    with mn have "used_at ?h ?l1 victim \<le> used_at ?h ?l1 x" by blast
    then show "used_at ?h l victim \<le> used_at ?h l x"
      using other[OF x] other[OF vd'] by simp
  qed
  with s vd' show ?thesis by blast
qed

lemma Set_all_within_limit_gen:
  "limit l \<noteq> 0 \<Longrightarrow> size_items l \<le> unat (limit l) \<Longrightarrow> finite (dom (items l)) \<Longrightarrow>
   ordered_calls (h, l) calls \<Longrightarrow>
   \<exists>h' l'. Set_all (h, l) calls = Inr (h', l') \<and> size_items l' \<le> unat (limit l')
      \<and> limit l' = limit l"
proof (induction calls arbitrary: h l)
  case Nil
  then show ?case by simp
next
  case (Cons call calls)
  obtain ks1 ks2 now k p where call: "call = (ks1, ks2, now, k, p)" by (cases call) auto
  from Cons.prems(4) have o1: "is_order ks1 (l\<lparr>items := (items l)(k \<mapsto> p)\<rparr>)"
    and o2: "is_order ks2 (l\<lparr>items := (items l)(k \<mapsto> p)\<rparr>)"
    by (simp_all add: call)
  from Set_item_within_limit[OF Cons.prems(1,2,3) o1 o2, of now h] obtain h1 l1 where
    s: "Set_item ks1 ks2 now (h, l) k p = Inr (h1, l1)"
    and b: "size_items l1 \<le> unat (limit l1)" and lim: "limit l1 = limit l"
    and f: "finite (dom (items l1))"
    by blast
  have oc: "ordered_calls (h1, l1) calls" using Cons.prems(4) s by (simp add: call)
  have nz: "limit l1 \<noteq> 0" using lim Cons.prems(1) by simp
  from Cons.IH[OF nz b f oc] show ?case using s lim by (simp add: call)
qed

lemma Set_all_within_limit:
  assumes "n \<noteq> 0" and "ordered_calls (h, NewCacheList n lt) calls"
  shows "\<exists>h' l'. Set_all (h, NewCacheList n lt) calls = Inr (h', l') \<and> size_items l' \<le> unat n"
proof -
  have "limit (NewCacheList n lt) \<noteq> 0" "size_items (NewCacheList n lt) \<le> unat (limit (NewCacheList n lt))"
    "finite (dom (items (NewCacheList n lt)))"
    using assms(1) by (simp_all add: NewCacheList_def size_items_def)
  from Set_all_within_limit_gen[OF this assms(2)] show ?thesis
    by (auto simp: NewCacheList_def)
qed

text \<open>The two calls of the failing run.\<close>

lemma Set_first:
  "Set_item [] [] 5 (emptyHeap, NewCacheList 1 0) 10 7
   = Inr (emptyHeap(7 := \<lparr>item = [], death = 0, lastUsed = 5\<rparr>),
          (NewCacheList 1 0)\<lparr>items := [10 \<mapsto> 7]\<rparr>)"
  by (simp add: Set_item_def update_def NewCacheList_def size_items_def emptyHeap_def)

lemma Set_second_tie:
  "Set_item [20, 10] [20, 10] 5
     (emptyHeap(7 := \<lparr>item = [], death = 0, lastUsed = 5\<rparr>),
      (NewCacheList 1 0)\<lparr>items := [10 \<mapsto> 7]\<rparr>) 20 8
   = Inr (emptyHeap(7 := \<lparr>item = [], death = 0, lastUsed = 5\<rparr>,
                    8 := \<lparr>item = [], death = 0, lastUsed = 5\<rparr>),
          (NewCacheList 1 0)\<lparr>items := [10 \<mapsto> 7]\<rparr>)"
  by (simp add: Set_item_def update_def NewCacheList_def size_items_def emptyHeap_def
      removeLRU_def First_def fun_upd_twist)

text \<open>
  C9. Past the limit, \<open>Set\<close> is to evict the least recently used item other than the
  one just inserted. On a list of limit 1 that holds key 10, setting key 20 at the same
  clock reading, with \<open>First\<close> visiting key 20 first, evicts key 20, the item just
  inserted: \<open>removeLRU\<close> starts from the exception itself and no other item is
  strictly older.
\<close>

theorem Set_evicts_inserted_item:
  "Set_all (emptyHeap, NewCacheList 1 0)
     [([], [], 5, 10, 7), ([20, 10], [20, 10], 5, 20, 8)]
   = Inr (emptyHeap(7 := \<lparr>item = [], death = 0, lastUsed = 5\<rparr>,
                    8 := \<lparr>item = [], death = 0, lastUsed = 5\<rparr>),
          (NewCacheList 1 0)\<lparr>items := [10 \<mapsto> 7]\<rparr>)
   \<and> is_order [20, 10] ((NewCacheList 1 0)\<lparr>items := [10 \<mapsto> 7, 20 \<mapsto> 8]\<rparr>)"
  by (simp add: Set_first Set_second_tie is_order_def)

end
